theory Spec2Isabelle
  imports Main "HOL-Library.Word" "HOL-Library.Sublist"
begin

section \<open>Strings\<close>

text \<open>
  A JavaScript string is a sequence of 16-bit code units. \<open>js\<close> embeds a literal;
  \<open>bs\<close> is the backslash.
\<close>

type_synonym jschar = "16 word"
type_synonym jsstr = "jschar list"

definition cu :: "char \<Rightarrow> jschar" where
  "cu c = of_nat (of_char c)"

definition js :: "string \<Rightarrow> jsstr" where
  "js s = map cu s"

definition bs :: jschar where
  "bs = 0x5C"

text \<open>
  White space and line terminators of ECMAScript: what \<open>String.prototype.trim\<close>
  strips.
\<close>

definition white :: "jschar \<Rightarrow> bool" where
  "white c = (c \<in> {0x09, 0x0A, 0x0B, 0x0C, 0x0D, 0x20, 0xA0, 0x1680, 0x2028, 0x2029,
                     0x202F, 0x205F, 0x3000, 0xFEFF} \<or> (0x2000 \<le> c \<and> c \<le> 0x200A))"

definition trim :: "jsstr \<Rightarrow> jsstr" where
  "trim s = rev (dropWhile white (rev (dropWhile white s)))"

text \<open>A number in a template literal: its decimal digits.\<close>

fun decimal :: "nat \<Rightarrow> jsstr" where
  "decimal n = (if n < 10 then [of_nat (48 + n)]
                else decimal (n div 10) @ [of_nat (48 + n mod 10)])"

declare decimal.simps [simp del]

text \<open>Truthiness of a \<open>string | null | undefined\<close> value: present and not empty.\<close>

fun truthy :: "jsstr option \<Rightarrow> bool" where
  "truthy None = False"
| "truthy (Some s) = (s \<noteq> [])"

text \<open>\<open>a || d\<close> on such a value.\<close>

fun or_else :: "jsstr option \<Rightarrow> jsstr \<Rightarrow> jsstr" where
  "or_else None d = d"
| "or_else (Some s) d = (if s = [] then d else s)"

text \<open>A \<open>string | null\<close> value inside a template literal.\<close>

fun interpolate :: "jsstr option \<Rightarrow> jsstr" where
  "interpolate None = js ''null''"
| "interpolate (Some s) = s"

section \<open>Cross-origin fetch relay\<close>

subsection \<open>The host's network\<close>

text \<open>
  A value caught by \<open>catch (error)\<close>: an \<open>Error\<close> with its message, or anything else.
\<close>

datatype thrown = ErrorObj jsstr | NotAnError

fun message_or :: "thrown \<Rightarrow> jsstr \<Rightarrow> jsstr" where
  "message_or (ErrorObj m) d = m"
| "message_or NotAnError d = d"

text \<open>
  What \<open>await fetch(url, { credentials: 'include' })\<close> gives: a rejection, or a response
  with its \<open>ok\<close> flag, its status, and what \<open>await response.text()\<close> gives.
\<close>

record response =
  ok :: bool
  status :: nat
  body :: "thrown + jsstr"

datatype fetch_outcome = Rejected thrown | Fulfilled response

text \<open>The relay's typed response \<open>{ ok, text?, error? }\<close>.\<close>

record reply =
  reply_ok :: bool
  reply_text :: "jsstr option"
  reply_error :: "jsstr option"

text \<open>
  What the callback of \<open>chrome.runtime.sendMessage\<close> receives: an object, read as a
  reply, or a value that is no object (\<open>undefined\<close> when the channel closed).
\<close>

datatype result_value = Obj reply | NoObject

text \<open>
  What the channel does with one request: \<open>sendMessage\<close> throws, or the callback is
  invoked after so many milliseconds, or it never is.
\<close>

datatype relay = Throws thrown | Responds nat result_value | NoResponse

text \<open>
  The network as the page sees it: \<open>sendMessage\<close> is \<open>None\<close> when
  \<open>chrome.runtime?.sendMessage\<close> is missing.
\<close>

record network =
  sendMessage :: "(jsstr \<Rightarrow> relay) option"
  fetch :: "jsstr \<Rightarrow> fetch_outcome"

subsection \<open>The privileged side: the \<open>FETCH_CSS\<close> listener\<close>



subsection \<open>The page side: \<open>fetchStylesheetText\<close>\<close>

record CloneOptions =
  removeScripts :: bool
  removeOriginalStyles :: bool
  useHostFetch :: bool
  addCsp :: bool

text \<open>The function's result \<open>{ text, error }\<close>, each a string or \<open>null\<close>.\<close>

record fetched =
  fetched_text :: "jsstr option"
  fetched_error :: "jsstr option"

text \<open>
  The promise of the relay path. Its executor arms a timer of 3000 ms and sends the
  request; the timer's callback, the request's callback and the \<open>catch\<close> block each
  start with \<open>if (settled) return\<close> and otherwise settle the promise. The promise is
  \<open>Pending\<close> or \<open>Settled\<close> with the time and the value of the \<open>resolve\<close> call; the
  variable \<open>settled\<close> is true exactly in the second case. The second component of the
  state says whether the timer is still armed (\<open>clearTimeout\<close> disarms it).
\<close>

datatype promise = Pending | Settled nat reply

definition timeout_ms :: nat where
  "timeout_ms = 3000"

fun on_timeout :: "promise \<times> bool \<Rightarrow> promise \<times> bool" where
  "on_timeout (Settled t v, armed) = (Settled t v, armed)"
| "on_timeout (Pending, armed) =
     (if armed then
        (Settled timeout_ms
           \<lparr>reply_ok = False, reply_text = None,
            reply_error = Some (js ''Background fetch timeout'')\<rparr>, armed)
      else (Pending, armed))"

fun on_result :: "nat \<Rightarrow> result_value \<Rightarrow> promise \<times> bool \<Rightarrow> promise \<times> bool" where
  "on_result at r (Settled t v, armed) = (Settled t v, armed)"
| "on_result at r (Pending, armed) =
     (Settled at
        (case r of
           Obj o' \<Rightarrow> o'
         | NoObject \<Rightarrow>
             \<lparr>reply_ok = False, reply_text = None,
              reply_error = Some (js ''Background fetch failed'')\<rparr>), False)"

fun on_throw :: "thrown \<Rightarrow> promise \<times> bool \<Rightarrow> promise \<times> bool" where
  "on_throw e (Settled t v, armed) = (Settled t v, armed)"
| "on_throw e (Pending, armed) =
     (Settled 0
        \<lparr>reply_ok = False, reply_text = None,
         reply_error = Some (message_or e (js ''Background fetch error''))\<rparr>, False)"

text \<open>
  The callbacks in the order in which the host runs them: a throw of \<open>sendMessage\<close> is
  caught inside the executor; a response that arrives before the timer's delay has
  passed runs before the timer's callback, a later one after it.
\<close>

fun relay_promise :: "relay \<Rightarrow> promise \<times> bool" where
  "relay_promise (Throws e) = on_timeout (on_throw e (Pending, True))"
| "relay_promise (Responds at r) =
     (if at < timeout_ms then on_timeout (on_result at r (Pending, True))
      else on_result at r (on_timeout (Pending, True)))"
| "relay_promise NoResponse = on_timeout (Pending, True)"

text \<open>
  The direct path: the retrieval with ambient credentials and its classification.
\<close>

definition direct_fetch :: "network \<Rightarrow> jsstr \<Rightarrow> fetched" where
  "direct_fetch net href =
     (case fetch net href of
        Rejected e \<Rightarrow> \<lparr>fetched_text = None, fetched_error = Some (message_or e (js ''Unknown fetch error''))\<rparr>
      | Fulfilled r \<Rightarrow>
          if \<not> ok r then \<lparr>fetched_text = None, fetched_error = Some (js ''HTTP '' @ decimal (status r))\<rparr>
          else
            (case body r of
               Inl e \<Rightarrow> \<lparr>fetched_text = None, fetched_error = Some (message_or e (js ''Unknown fetch error''))\<rparr>
             | Inr t \<Rightarrow> \<lparr>fetched_text = Some t, fetched_error = None\<rparr>))"

text \<open>
  \<open>fetchStylesheetText\<close>. A promise that stays pending would leave the \<open>await\<close> without
  a value, written here as a result with neither text nor error; by
  \<open>relay_promise_settles\<close> and \<open>fetchStylesheetText_total\<close> below this branch is never taken.
\<close>

definition fetchStylesheetText :: "CloneOptions \<Rightarrow> network \<Rightarrow> jsstr \<Rightarrow> fetched" where
  "fetchStylesheetText opts net href =
     (case (if useHostFetch opts then sendMessage net else None) of
        Some send \<Rightarrow>
          (case fst (relay_promise (send href)) of
             Pending \<Rightarrow> \<lparr>fetched_text = None, fetched_error = None\<rparr>
           | Settled t response \<Rightarrow>
               if \<not> reply_ok response \<or> \<not> truthy (reply_text response) then
                 \<lparr>fetched_text = None,
                  fetched_error = Some (or_else (reply_error response) (js ''Background fetch failed''))\<rparr>
               else \<lparr>fetched_text = reply_text response, fetched_error = None\<rparr>)
      | None \<Rightarrow> direct_fetch net href)"

section \<open>Selector list splitter\<close>

definition dq :: jschar where
  "dq = 0x22"

definition sq :: jschar where
  "sq = 0x27"

text \<open>The variables of the loop of \<open>splitSelectors\<close>.\<close>

record splitter =
  selectors :: "jsstr list"
  current :: jsstr
  depth :: nat
  quote :: "jschar option"

text \<open>
  One turn of the loop on \<open>char = selectorText[i]\<close>; \<open>prev\<close> is \<open>selectorText[i - 1]\<close>
  (\<open>None\<close> at \<open>i = 0\<close>, where the source reads \<open>undefined\<close>). On naturals \<open>depth - 1\<close>
  stops at zero, as \<open>Math.max(0, depth - 1)\<close> does.
\<close>

definition split_step :: "jschar option \<Rightarrow> jschar \<Rightarrow> splitter \<Rightarrow> splitter" where
  "split_step prev char st =
     (case quote st of
        Some q \<Rightarrow>
          st\<lparr>current := current st @ [char],
             quote := (if char = q \<and> prev \<noteq> Some bs then None else Some q)\<rparr>
      | None \<Rightarrow>
          if char = dq \<or> char = sq then
            st\<lparr>quote := Some char, current := current st @ [char]\<rparr>
          else if char = cu CHR ''('' \<or> char = cu CHR ''['' then
            st\<lparr>depth := depth st + 1, current := current st @ [char]\<rparr>
          else if char = cu CHR '')'' \<or> char = cu CHR '']'' then
            st\<lparr>depth := depth st - 1, current := current st @ [char]\<rparr>
          else if char = cu CHR '','' \<and> depth st = 0 then
            st\<lparr>selectors :=
                 (let trimmed = trim (current st)
                  in if trimmed \<noteq> [] then selectors st @ [trimmed] else selectors st),
               current := []\<rparr>
          else st\<lparr>current := current st @ [char]\<rparr>)"

fun split_loop :: "jschar option \<Rightarrow> jsstr \<Rightarrow> splitter \<Rightarrow> splitter" where
  "split_loop prev [] st = st"
| "split_loop prev (char # rest) st = split_loop (Some char) rest (split_step prev char st)"

definition split_finish :: "splitter \<Rightarrow> jsstr list" where
  "split_finish st =
     (let trimmed = trim (current st)
      in if trimmed \<noteq> [] then selectors st @ [trimmed] else selectors st)"

definition splitSelectors :: "jsstr \<Rightarrow> jsstr list" where
  "splitSelectors selectorText =
     split_finish
       (split_loop None selectorText
          \<lparr>selectors = [], current = [], depth = 0, quote = None\<rparr>)"

subsection \<open>What the splitter is to compute\<close>




section \<open>Regular expressions\<close>

text \<open>
  The regular expressions of the source, as terms, and the backtracking matcher of
  ECMAScript on them. \<open>ms ic r s\<close> lists what is left of \<open>s\<close> after each way in which
  \<open>r\<close> matches a prefix of \<open>s\<close>, in the order in which backtracking tries them: the
  left alternative first, the longer repetition first. The match at a position is
  the first of the list.

  \<open>ic\<close> is the flag \<open>i\<close>. Every character a pattern of the source names is ASCII, and
  without the flag \<open>u\<close> no character outside ASCII is canonicalized to an ASCII one, so
  folding the ASCII letters is all the flag does here.
\<close>

datatype rx =
    Eps
  | Lit jschar
  | Cls "jschar list"
  | NCls "jschar list"
  | Seq rx rx
  | Alt rx rx
  | Opt rx
  | Star rx

definition canon :: "bool \<Rightarrow> jschar \<Rightarrow> jschar" where
  "canon ic c = (if ic \<and> 0x61 \<le> c \<and> c \<le> 0x7A then c - 0x20 else c)"

fun ms :: "bool \<Rightarrow> rx \<Rightarrow> jsstr \<Rightarrow> jsstr list" where
  "ms ic Eps s = [s]"
| "ms ic (Lit c) s =
     (case s of [] \<Rightarrow> [] | x # xs \<Rightarrow> if canon ic x = canon ic c then [xs] else [])"
| "ms ic (Cls cs) s =
     (case s of [] \<Rightarrow> [] | x # xs \<Rightarrow> if canon ic x \<in> canon ic ` set cs then [xs] else [])"
| "ms ic (NCls cs) s =
     (case s of [] \<Rightarrow> [] | x # xs \<Rightarrow> if canon ic x \<notin> canon ic ` set cs then [xs] else [])"
| "ms ic (Seq a b) s = concat (map (ms ic b) (ms ic a s))"
| "ms ic (Alt a b) s = ms ic a s @ ms ic b s"
| "ms ic (Opt a) s = ms ic a s @ [s]"
| "ms ic (Star a) s =
     concat (map (\<lambda>r. if length r < length s then ms ic (Star a) r else []) (ms ic a s)) @ [s]"

text \<open>The equation of the repetition unfolds itself: it is used only where named.\<close>

declare ms.simps(8) [simp del]

definition Plus :: "rx \<Rightarrow> rx" where
  "Plus a = Seq a (Star a)"

fun seqs :: "rx list \<Rightarrow> rx" where
  "seqs [] = Eps"
| "seqs [r] = r"
| "seqs (r # rs) = Seq r (seqs rs)"

fun alts :: "rx list \<Rightarrow> rx" where
  "alts [] = Cls []"
| "alts [r] = r"
| "alts (r # rs) = Alt r (alts rs)"

definition lits :: "string \<Rightarrow> rx" where
  "lits s = seqs (map (\<lambda>c. Lit (cu c)) s)"

text \<open>
  \<open>s.replace(/r/g, f)\<close>, where \<open>f\<close> receives the matched text: from left to right,
  the match at the first position that has one is replaced and the search goes on
  behind it; after an empty match the next character is copied.
\<close>

fun replace_with :: "bool \<Rightarrow> rx \<Rightarrow> (jsstr \<Rightarrow> jsstr) \<Rightarrow> jsstr \<Rightarrow> jsstr" where
  "replace_with ic r f [] = (case ms ic r [] of [] \<Rightarrow> [] | rest # others \<Rightarrow> f [])"
| "replace_with ic r f (c # cs) =
     (case ms ic r (c # cs) of
        [] \<Rightarrow> c # replace_with ic r f cs
      | rest # others \<Rightarrow>
          if length rest < length (c # cs)
          then f (take (length (c # cs) - length rest) (c # cs)) @ replace_with ic r f rest
          else f [] @ c # replace_with ic r f cs)"

section \<open>Selector normalizer\<close>

text \<open>\<^verbatim>\<open>/::?before|::?after/gi\<close>\<close>

definition rx_before_after :: rx where
  "rx_before_after =
     Alt (seqs [Lit (cu CHR '':''), Opt (Lit (cu CHR '':'')), lits ''before''])
         (seqs [Lit (cu CHR '':''), Opt (Lit (cu CHR '':'')), lits ''after''])"

text \<open>
  \<^verbatim>\<open>/::[\\w-]+/g\<close>: in the source the class holds a backslash (written \<^verbatim>\<open>\\\<close>), the
  letter \<open>w\<close> and the hyphen.
\<close>

definition rx_pseudo_element :: rx where
  "rx_pseudo_element =
     seqs [Lit (cu CHR '':''), Lit (cu CHR '':''), Plus (Cls [bs, cu CHR ''w'', cu CHR ''-''])]"

text \<open>
  \<^verbatim>\<open>/:(hover|active|focus|focus-visible|focus-within|visited|link|checked|disabled|enabled|target)/gi\<close>
\<close>

definition rx_pseudo_class :: rx where
  "rx_pseudo_class =
     Seq (Lit (cu CHR '':''))
       (alts [lits ''hover'', lits ''active'', lits ''focus'', lits ''focus-visible'',
              lits ''focus-within'', lits ''visited'', lits ''link'', lits ''checked'',
              lits ''disabled'', lits ''enabled'', lits ''target''])"

definition normalizeSelector :: "jsstr \<Rightarrow> jsstr" where
  "normalizeSelector selector =
     trim (replace_with True rx_pseudo_class (\<lambda>m. [])
            (replace_with False rx_pseudo_element (\<lambda>m. [])
              (replace_with True rx_before_after (\<lambda>m. []) selector)))"

section \<open>URL rewriter\<close>

text \<open>
  \<^verbatim>\<open>/url\\(\\s*(?:['"]?)([^'")]+)(?:['"]?)\\s*\\)/gi\<close>: as the source writes it, each
  \<^verbatim>\<open>\\\<close> is a backslash to be matched, \<open>s*\<close> repeats the letter \<open>s\<close>, and the first
  group opens behind the first backslash and closes at the end of the pattern. The
  groups do not change what is matched.
\<close>

definition rx_url :: rx where
  "rx_url =
     seqs [lits ''url'', Lit bs,
           Lit bs, Star (Lit (cu CHR ''s'')), Opt (Cls [sq, dq]),
           Plus (NCls [sq, dq, cu CHR '')'']), Opt (Cls [sq, dq]),
           Lit bs, Star (Lit (cu CHR ''s'')), Lit bs]"

text \<open>
  The callback of the replacement. Its second parameter \<open>url\<close> is the first group:
  the match without the four characters before the group.
  \<open>resolve url base\<close> is \<open>new URL(url, base).href\<close>, \<open>None\<close> when the constructor throws.
\<close>

definition rewrite_match :: "(jsstr \<Rightarrow> jsstr \<Rightarrow> jsstr option) \<Rightarrow> jsstr \<Rightarrow> jsstr \<Rightarrow> jsstr" where
  "rewrite_match resolve baseUrl match =
     (let url = drop 4 match in
      if url = [] \<or> prefix (js ''data:'') url \<or> prefix (js ''blob:'') url
         \<or> prefix (js ''about:'') url \<or> prefix (js ''#'') url
      then match
      else (case resolve url baseUrl of
              Some absolute \<Rightarrow> js ''url('' @ [dq] @ absolute @ [dq] @ js '')''
            | None \<Rightarrow> match))"

definition rewriteCssUrls ::
  "(jsstr \<Rightarrow> jsstr \<Rightarrow> jsstr option) \<Rightarrow> jsstr \<Rightarrow> jsstr option \<Rightarrow> jsstr" where
  "rewriteCssUrls resolve cssText baseUrl =
     (if \<not> truthy baseUrl then cssText
      else replace_with True rx_url (rewrite_match resolve (the baseUrl)) cssText)"

definition inlineCssUrls ::
  "(jsstr \<Rightarrow> jsstr \<Rightarrow> jsstr option) \<Rightarrow> jsstr \<Rightarrow> jsstr option \<Rightarrow> bool \<Rightarrow> jsstr" where
  "inlineCssUrls resolve cssText baseUrl inlineAssets =
     (let rewritten = rewriteCssUrls resolve cssText baseUrl
      in if \<not> inlineAssets then rewritten else rewritten)"

section \<open>Stylesheet traversal and collection\<close>

subsection \<open>Rules, style sources and the host\<close>

text \<open>
  A rule as \<open>collectRules\<close> tells it apart, in the order of its tests: a
  \<open>CSSStyleRule\<close> with \<open>selectorText\<close> and \<open>cssText\<close>, a \<open>CSSMediaRule\<close> and a
  \<open>CSSSupportsRule\<close> with \<open>conditionText\<close> and \<open>cssRules\<close>, a \<open>CSSKeyframesRule\<close> and a
  \<open>CSSFontFaceRule\<close> with \<open>cssText\<close>, a \<open>CSSImportRule\<close> with its \<open>styleSheet\<close>
  (\<open>null\<close>, or a reference to a style source), any other rule that has \<open>cssRules\<close>
  (with its \<open>cssText\<close>), and any other rule.

  Style sources are objects that import rules may share or reach in a cycle, so they
  live in an arena, the list \<open>sheets\<close> of the host, and a reference is an index into
  it. A reference outside the arena denotes no object: it is read as \<open>null\<close>.
\<close>

datatype rule =
    StyleRule jsstr jsstr
  | MediaRule jsstr "rule list"
  | SupportsRule jsstr "rule list"
  | KeyframesRule jsstr
  | FontFaceRule jsstr
  | ImportRule "nat option"
  | GroupingRule jsstr "rule list"
  | OtherRule

text \<open>
  A style source: its \<open>href\<close>, and its \<open>cssRules\<close>, \<open>None\<close> when reading them throws.
\<close>

record sheet =
  href :: "jsstr option"
  cssRules :: "rule list option"

text \<open>
  The page as the injected function sees it: \<open>document.querySelector(s) !== null\<close>
  (\<open>None\<close> when the selector is rejected), \<open>CSS.supports\<close>, the media query
  primitive \<open>matchMedia(q).matches\<close>, \<open>new URL(u, base).href\<close> (\<open>None\<close> when it
  throws), the rule list that the host parses from a text in a detached document
  (\<open>None\<close> for \<open>null\<close>), the arena of style sources, \<open>document.styleSheets\<close> and the
  network.
\<close>

record page =
  querySelector :: "jsstr \<Rightarrow> bool option"
  supports :: "jsstr \<Rightarrow> bool"
  matchMedia :: "jsstr \<Rightarrow> bool"
  resolveURL :: "jsstr \<Rightarrow> jsstr \<Rightarrow> jsstr option"
  parse :: "jsstr \<Rightarrow> rule list option"
  sheets :: "sheet list"
  styleSheets :: "nat list"
  network :: network

subsection \<open>Relevance matcher\<close>

definition selectorMatches :: "page \<Rightarrow> jsstr \<Rightarrow> bool" where
  "selectorMatches h selector =
     (case querySelector h selector of
        Some found \<Rightarrow> found
      | None \<Rightarrow>
          (let normalized = normalizeSelector selector in
           if normalized = [] \<or> normalized = selector then False
           else (case querySelector h normalized of Some found \<Rightarrow> found | None \<Rightarrow> False)))"

subsection \<open>The collection engine\<close>

text \<open>
  The variables that \<open>collectRules\<close> and \<open>collectFromStylesheet\<close> share: the arrays
  \<open>usedRules\<close> and \<open>warnings\<close>, the sets \<open>fontFaces\<close> and \<open>keyframes\<close> in insertion order,
  and the set \<open>visitedSheets\<close>. \<open>examined\<close> is not a variable of the source: it lists,
  in order, the style sources whose rule list \<open>collectFromStylesheet\<close> went on to read.
\<close>

record collector =
  usedRules :: "jsstr list"
  fontFaces :: "jsstr list"
  keyframes :: "jsstr list"
  visitedSheets :: "nat set"
  warnings :: "jsstr list"
  examined :: "nat list"

definition set_add :: "jsstr \<Rightarrow> jsstr list \<Rightarrow> jsstr list" where
  "set_add x xs = (if x \<in> set xs then xs else xs @ [x])"

definition parseRulesFromText :: "page \<Rightarrow> jsstr \<Rightarrow> rule list option" where
  "parseRulesFromText h cssText = parse h cssText"

text \<open>The style sources of the arena not yet visited: what the traversal uses up.\<close>

definition unvisited :: "page \<Rightarrow> collector \<Rightarrow> nat" where
  "unvisited h st = card ({..<length (sheets h)} - visitedSheets st)"

text \<open>
  \<open>collectRules\<close> returns its array \<open>collected\<close>; both functions return the shared
  variables as they leave them. In \<open>collectFromStylesheet\<close> the \<open>catch\<close> block is the
  branch in which reading \<open>sheet.cssRules\<close> throws; nothing else in the \<open>try\<close> block
  throws.
\<close>

function collectRules :: "CloneOptions \<Rightarrow> page \<Rightarrow> rule list \<Rightarrow> collector \<Rightarrow> jsstr list \<times> collector"
  and collectFromStylesheet :: "CloneOptions \<Rightarrow> page \<Rightarrow> nat \<Rightarrow> collector \<Rightarrow> collector"
where
  "collectRules opts h [] st = ([], st)"
| "collectRules opts h (StyleRule selectorText cssText # rules) st =
     (let (collected, st') = collectRules opts h rules st
      in ((if list_ex (selectorMatches h) (splitSelectors selectorText) then [cssText] else [])
            @ collected, st'))"
| "collectRules opts h (MediaRule conditionText children # rules) st =
     (let (nested, st1) = collectRules opts h children st;
          (collected, st2) = collectRules opts h rules st1
      in ((if nested \<noteq> []
           then [js ''@media '' @ conditionText @ js ''{'' @ concat nested @ js ''}'']
           else []) @ collected, st2))"
| "collectRules opts h (SupportsRule conditionText children # rules) st =
     (if \<not> supports h conditionText then collectRules opts h rules st
      else
        (let (nested, st1) = collectRules opts h children st;
             (collected, st2) = collectRules opts h rules st1
         in ((if nested \<noteq> []
              then [js ''@supports '' @ conditionText @ js ''{'' @ concat nested @ js ''}'']
              else []) @ collected, st2)))"
| "collectRules opts h (KeyframesRule cssText # rules) st =
     collectRules opts h rules (st\<lparr>keyframes := set_add cssText (keyframes st)\<rparr>)"
| "collectRules opts h (FontFaceRule cssText # rules) st =
     collectRules opts h rules (st\<lparr>fontFaces := set_add cssText (fontFaces st)\<rparr>)"
| "collectRules opts h (ImportRule styleSheet # rules) st =
     (case styleSheet of
        None \<Rightarrow> collectRules opts h rules st
      | Some i \<Rightarrow>
          if i < length (sheets h) \<and> i \<notin> visitedSheets st
          then collectRules opts h rules (collectFromStylesheet opts h i st)
          else collectRules opts h rules st)"
| "collectRules opts h (GroupingRule cssText children # rules) st =
     (let (nested, st1) = collectRules opts h children st;
          (collected, st2) = collectRules opts h rules st1
      in ((if nested \<noteq> [] then [cssText] else []) @ collected, st2))"
| "collectRules opts h (OtherRule # rules) st = collectRules opts h rules st"
| "collectFromStylesheet opts h i st =
     (if i \<in> visitedSheets st \<or> \<not> i < length (sheets h) then st
      else
        (let st0 = st\<lparr>visitedSheets := insert i (visitedSheets st), examined := examined st @ [i]\<rparr>
         in case cssRules (sheets h ! i) of
              Some rules \<Rightarrow>
                (let (nested, st1) = collectRules opts h rules st0
                 in st1\<lparr>usedRules := usedRules st1 @ nested\<rparr>)
            | None \<Rightarrow>
                if \<not> truthy (href (sheets h ! i)) then st0
                else
                  (let address = the (href (sheets h ! i));
                       st1 = st0\<lparr>warnings := warnings st0 @
                               [js ''cssRules blocked for stylesheet: '' @ address]\<rparr>;
                       fallbackResult = fetchStylesheetText opts (network h) address
                   in if \<not> truthy (fetched_text fallbackResult) then
                        st1\<lparr>warnings := warnings st1 @
                              [js ''Failed to fetch stylesheet: '' @ address @ js '' ('' @
                               interpolate (fetched_error fallbackResult) @ js '')'']\<rparr>
                      else
                        (let updatedCssText =
                               inlineCssUrls (resolveURL h) (the (fetched_text fallbackResult))
                                 (Some address) False;
                             parsedRules = parseRulesFromText h updatedCssText;
                             (nested, st2) =
                               (case parsedRules of
                                  None \<Rightarrow> ([], st1)
                                | Some rules \<Rightarrow> collectRules opts h rules st1)
                         in st2\<lparr>usedRules := usedRules st2 @ nested\<rparr>))))"
  by pat_completeness auto

lemma collect_grows:
  "collectRules_collectFromStylesheet_dom (Inl (opts, h, rules, st)) \<Longrightarrow>
     visitedSheets st \<subseteq> visitedSheets (snd (collectRules opts h rules st))"
  "collectRules_collectFromStylesheet_dom (Inr (opts, h, i, st)) \<Longrightarrow>
     visitedSheets st \<subseteq> visitedSheets (collectFromStylesheet opts h i st)"
proof (induct opts h rules st and opts h i st rule: collectRules_collectFromStylesheet.pinduct)
  case (1 opts h st)
  then show ?case by (simp add: collectRules.psimps)
next
  case (2 opts h selectorText cssText rules st)
  then show ?case by (simp add: collectRules.psimps case_prod_beta)
next
  case (3 opts h conditionText children rules st)
  obtain nested st1 where eq: "collectRules opts h children st = (nested, st1)"
    by (cases "collectRules opts h children st")
  have "visitedSheets st \<subseteq> visitedSheets st1"
    using 3(2) eq by simp
  also have "\<dots> \<subseteq> visitedSheets (snd (collectRules opts h rules st1))"
    using 3(3) eq by simp
  finally show ?case using 3(1) eq by (simp add: collectRules.psimps case_prod_beta)
next
  case (4 opts h conditionText children rules st)
  show ?case
  proof (cases "supports h conditionText")
    case False
    then show ?thesis using 4(1,2) by (simp add: collectRules.psimps)
  next
    case True
    obtain nested st1 where eq: "collectRules opts h children st = (nested, st1)"
      by (cases "collectRules opts h children st")
    have "visitedSheets st \<subseteq> visitedSheets st1"
      using 4(3) True eq by simp
    also have "\<dots> \<subseteq> visitedSheets (snd (collectRules opts h rules st1))"
      using 4(4) True eq by simp
    finally show ?thesis using 4(1) True eq by (simp add: collectRules.psimps case_prod_beta)
  qed
next
  case (5 opts h cssText rules st)
  then show ?case by (simp add: collectRules.psimps)
next
  case (6 opts h cssText rules st)
  then show ?case by (simp add: collectRules.psimps)
next
  case (7 opts h styleSheet rules st)
  then show ?case
    by (cases styleSheet) (auto simp: collectRules.psimps)
next
  case (8 opts h cssText children rules st)
  obtain nested st1 where eq: "collectRules opts h children st = (nested, st1)"
    by (cases "collectRules opts h children st")
  have "visitedSheets st \<subseteq> visitedSheets st1"
    using 8(2) eq by simp
  also have "\<dots> \<subseteq> visitedSheets (snd (collectRules opts h rules st1))"
    using 8(3) eq by simp
  finally show ?case using 8(1) eq by (simp add: collectRules.psimps case_prod_beta)
next
  case (9 opts h rules st)
  then show ?case by (simp add: collectRules.psimps)
next
  case (10 opts h i st)
  let ?st0 = "st\<lparr>visitedSheets := insert i (visitedSheets st), examined := examined st @ [i]\<rparr>"
  show ?case
  proof (cases "i \<in> visitedSheets st \<or> \<not> i < length (sheets h)")
    case True
    then show ?thesis using 10(1) by (simp add: collectFromStylesheet.psimps)
  next
    case False
    show ?thesis
    proof (cases "cssRules (sheets h ! i)")
      case (Some rules)
      have "visitedSheets ?st0 \<subseteq> visitedSheets (snd (collectRules opts h rules ?st0))"
        using 10(3)[OF False refl Some] by simp
      then show ?thesis
        using 10(1) False Some by (auto simp: collectFromStylesheet.psimps case_prod_beta Let_def)
    next
      case None
      let ?address = "the (href (sheets h ! i))"
      let ?st1 = "?st0\<lparr>warnings := warnings ?st0 @
                               [js ''cssRules blocked for stylesheet: '' @ ?address]\<rparr>"
      let ?fb = "fetchStylesheetText opts (network h) ?address"
      let ?parsed = "parseRulesFromText h (inlineCssUrls (resolveURL h) (the (fetched_text ?fb))
                                 (Some ?address) False)"
      show ?thesis
      proof (cases "truthy (href (sheets h ! i)) \<and> truthy (fetched_text ?fb)")
        case False
        then show ?thesis
          using 10(1) \<open>\<not> (i \<in> visitedSheets st \<or> \<not> i < length (sheets h))\<close> None
          by (auto simp: collectFromStylesheet.psimps Let_def)
      next
        case True
        show ?thesis
        proof (cases ?parsed)
          case None' : None
          then show ?thesis
            using 10(1) \<open>\<not> (i \<in> visitedSheets st \<or> \<not> i < length (sheets h))\<close> None True
            by (auto simp: collectFromStylesheet.psimps Let_def)
        next
          case (Some rules)
          have "visitedSheets ?st1 \<subseteq> visitedSheets (snd (collectRules opts h rules ?st1))"
            using 10(2)[OF \<open>\<not> (i \<in> visitedSheets st \<or> \<not> i < length (sheets h))\<close> refl None _ refl refl refl _ refl refl Some] True
            by simp
          then show ?thesis
            using 10(1) \<open>\<not> (i \<in> visitedSheets st \<or> \<not> i < length (sheets h))\<close> None True Some
            by (auto simp: collectFromStylesheet.psimps Let_def case_prod_beta)
        qed
      qed
    qed
  qed
qed

lemma unvisited_mono:
  "visitedSheets st \<subseteq> visitedSheets st' \<Longrightarrow> unvisited h st' \<le> unvisited h st"
  unfolding unvisited_def by (intro card_mono) auto

lemma unvisited_insert:
  "i < length (sheets h) \<Longrightarrow> i \<notin> visitedSheets st \<Longrightarrow>
     visitedSheets st' = insert i (visitedSheets st) \<Longrightarrow> unvisited h st' < unvisited h st"
  unfolding unvisited_def by (intro psubset_card_mono) auto

lemma unvisited_rules:
  "collectRules_collectFromStylesheet_dom (Inl (opts, h, rules, st)) \<Longrightarrow>
     (x, y) = collectRules opts h rules st \<Longrightarrow> unvisited h y \<le> unvisited h st"
  using collect_grows(1)[of opts h rules st] by (metis snd_conv unvisited_mono)

lemma unvisited_sheet:
  "collectRules_collectFromStylesheet_dom (Inr (opts, h, i, st)) \<Longrightarrow>
     unvisited h (collectFromStylesheet opts h i st) \<le> unvisited h st"
  using collect_grows(2)[of opts h i st] by (simp add: unvisited_mono)

lemma unvisited_frame [simp]:
  "unvisited h (st\<lparr>keyframes := k\<rparr>) = unvisited h st"
  "unvisited h (st\<lparr>fontFaces := f\<rparr>) = unvisited h st"
  "unvisited h (st\<lparr>warnings := w\<rparr>) = unvisited h st"
  "unvisited h (st\<lparr>examined := e\<rparr>) = unvisited h st"
  "unvisited h (st\<lparr>usedRules := u\<rparr>) = unvisited h st"
  by (simp_all add: unvisited_def)

termination collectRules
proof (relation "measures [\<lambda>x. case x of Inl (opts, h, rules, st) \<Rightarrow> unvisited h st | Inr (opts, h, i, st) \<Rightarrow> unvisited h st,
                           \<lambda>x. case x of Inl (opts, h, rules, st) \<Rightarrow> Suc (size_list size rules) | Inr (opts, h, i, st) \<Rightarrow> 0]",
       goal_cases)
  case 1
  then show ?case by simp
qed (auto simp: unvisited_insert dest: unvisited_rules unvisited_sheet)

declare collectFromStylesheet.simps [simp del]




definition timeout_reply :: reply where
  "timeout_reply =
     \<lparr>reply_ok = False, reply_text = None,
      reply_error = Some (js ''Background fetch timeout'')\<rparr>"

text \<open>\<open>xs.join(sep)\<close>\<close>

fun join :: "jsstr \<Rightarrow> jsstr list \<Rightarrow> jsstr" where
  "join sep [] = []"
| "join sep [x] = x"
| "join sep (x # xs) = x @ sep @ join sep xs"

text \<open>
  \<open>collectUsedCss\<close>: the traversal of \<open>document.styleSheets\<close> in order, and the joined
  output. \<open>warnings0\<close> is the array \<open>warnings\<close> of the enclosing function as the call
  finds it; the collector as the call leaves it is returned with the text.
\<close>

definition collectUsedCss :: "CloneOptions \<Rightarrow> page \<Rightarrow> jsstr list \<Rightarrow> jsstr \<times> collector" where
  "collectUsedCss opts h warnings0 =
     (let st = foldl (\<lambda>st sheet. collectFromStylesheet opts h sheet st)
                 \<lparr>usedRules = [], fontFaces = [], keyframes = [], visitedSheets = {},
                  warnings = warnings0, examined = []\<rparr>
                 (styleSheets h)
      in (join [0x0A] (fontFaces st @ keyframes st @ usedRules st), st))"

section \<open>Snapshot assembler\<close>

subsection \<open>The document tree\<close>













subsection \<open>Animation suspension\<close>





subsection \<open>Pruning, injection and serialization of the clone\<close>



text \<open>
  \<open>outerHTML\<close>: the HTML fragment serialization of the host, for elements, text and
  comments.
\<close>

definition void_elements :: "jsstr list" where
  "void_elements =
     map js [''area'', ''base'', ''br'', ''col'', ''embed'', ''hr'', ''img'', ''input'', ''link'',
             ''meta'', ''source'', ''track'', ''wbr'', ''basefont'', ''bgsound'', ''frame'',
             ''keygen'', ''param'']"

definition raw_text_elements :: "jsstr list" where
  "raw_text_elements =
     map js [''style'', ''script'', ''xmp'', ''iframe'', ''noembed'', ''noframes'', ''plaintext'',
             ''noscript'']"







subsection \<open>The suspension style in a tree\<close>


subsection \<open>A piece under construction\<close>


subsection \<open>Invariants of the traversal\<close>

text \<open>
  \<open>marked i\<close> is what \<open>collectFromStylesheet\<close> does to the shared variables before it
  reads the rules of source \<open>i\<close>. A property of the shared variables is \<open>stable\<close> when
  neither that step, for a source of the arena not yet visited, nor a change of the
  collected texts and warnings breaks it.
\<close>

definition marked :: "nat \<Rightarrow> collector \<Rightarrow> collector" where
  "marked i st = st\<lparr>visitedSheets := insert i (visitedSheets st), examined := examined st @ [i]\<rparr>"

definition stable :: "page \<Rightarrow> (collector \<Rightarrow> bool) \<Rightarrow> bool" where
  "stable h Q =
     ((\<forall>st u. Q st \<longrightarrow> Q (st\<lparr>usedRules := u\<rparr>)) \<and>
      (\<forall>st f. Q st \<longrightarrow> Q (st\<lparr>fontFaces := f\<rparr>)) \<and>
      (\<forall>st k. Q st \<longrightarrow> Q (st\<lparr>keyframes := k\<rparr>)) \<and>
      (\<forall>st w. Q st \<longrightarrow> Q (st\<lparr>warnings := w\<rparr>)) \<and>
      (\<forall>st i. Q st \<longrightarrow> i \<notin> visitedSheets st \<longrightarrow> i < length (sheets h) \<longrightarrow> Q (marked i st)))"

section \<open>What the normalizer leaves\<close>

text \<open>
  \<open>occurs ic r s\<close>: the pattern matches at some position of \<open>s\<close>. A selector is
  \<open>pseudo_free\<close> when none of the three patterns that \<open>normalizeSelector\<close> strips
  matches anywhere in it. A pattern is \<open>consuming\<close> when every match takes at least one
  character, and \<open>colon_first\<close> when every match starts at a colon.
\<close>

fun occurs :: "bool \<Rightarrow> rx \<Rightarrow> jsstr \<Rightarrow> bool" where
  "occurs ic r [] = (ms ic r [] \<noteq> [])"
| "occurs ic r (c # cs) = (ms ic r (c # cs) \<noteq> [] \<or> occurs ic r cs)"

definition pseudo_free :: "jsstr \<Rightarrow> bool" where
  "pseudo_free s =
     (\<not> occurs True rx_before_after s \<and> \<not> occurs False rx_pseudo_element s
      \<and> \<not> occurs True rx_pseudo_class s)"

definition consuming :: "bool \<Rightarrow> rx \<Rightarrow> bool" where
  "consuming ic r = (\<forall>s rest. rest \<in> set (ms ic r s) \<longrightarrow> length rest < length s)"

definition colon_first :: "bool \<Rightarrow> rx \<Rightarrow> bool" where
  "colon_first ic r = (\<forall>s. ms ic r s \<noteq> [] \<longrightarrow> (\<exists>cs. s = cu CHR '':'' # cs))"

section \<open>Sample inputs\<close>

definition sample_address :: jsstr where
  "sample_address = js ''https://a.example/s.css''"

definition direct_options :: CloneOptions where
  "direct_options =
     \<lparr>removeScripts = False, removeOriginalStyles = True, useHostFetch = False,
      addCsp = False\<rparr>"

definition relay_options :: CloneOptions where
  "relay_options =
     \<lparr>removeScripts = False, removeOriginalStyles = True, useHostFetch = True,
      addCsp = False\<rparr>"

definition net_404 :: network where
  "net_404 =
     \<lparr>sendMessage = None,
      fetch = (\<lambda>u. Fulfilled \<lparr>ok = False, status = 404, body = Inr []\<rparr>)\<rparr>"

definition sample_success :: reply where
  "sample_success = \<lparr>reply_ok = True, reply_text = Some (js ''p{}''), reply_error = None\<rparr>"

definition late_channel :: "jsstr \<Rightarrow> relay" where
  "late_channel u = Responds 4500 (Obj sample_success)"

definition net_late :: network where
  "net_late = \<lparr>sendMessage = Some late_channel, fetch = (\<lambda>u. Rejected NotAnError)\<rparr>"







definition empty_collector :: collector where
  "empty_collector =
     \<lparr>usedRules = [], fontFaces = [], keyframes = [], visitedSheets = {}, warnings = [],
      examined = []\<rparr>"

definition print_rule :: rule where
  "print_rule = MediaRule (js ''print'') [StyleRule (js ''p, q'') (js ''p, q { color: red; }'')]"

text \<open>A page with a \<open>p\<close> element, on which no media query holds.\<close>

definition screen_page :: page where
  "screen_page =
     \<lparr>querySelector = (\<lambda>s. Some (s = js ''p'')), supports = (\<lambda>c. True),
      matchMedia = (\<lambda>c. False), resolveURL = (\<lambda>u b. None), parse = (\<lambda>t. None),
      sheets = [], styleSheets = [],
      network = \<lparr>sendMessage = None, fetch = (\<lambda>u. Rejected NotAnError)\<rparr>\<rparr>"

text \<open>
  Two style sources: the first imports itself and the second, the second imports the
  first.
\<close>

definition self_importing_rules :: "rule list" where
  "self_importing_rules =
     [ImportRule (Some 0), ImportRule (Some 1), StyleRule (js ''p'') (js ''p { margin: 0; }'')]"

definition cyclic_page :: page where
  "cyclic_page =
     \<lparr>querySelector = (\<lambda>s. Some (s = js ''p'')), supports = (\<lambda>c. True),
      matchMedia = (\<lambda>c. False), resolveURL = (\<lambda>u b. None), parse = (\<lambda>t. None),
      sheets =
        [\<lparr>href = None, cssRules = Some self_importing_rules\<rparr>,
         \<lparr>href = None,
          cssRules = Some [ImportRule (Some 0), StyleRule (js ''p'') (js ''p { color: red; }'')]\<rparr>],
      styleSheets = [0, 1],
      network = \<lparr>sendMessage = None, fetch = (\<lambda>u. Rejected NotAnError)\<rparr>\<rparr>"

text \<open>One style source whose rules cannot be read and whose address answers 404.\<close>

definition blocked_page :: page where
  "blocked_page =
     \<lparr>querySelector = (\<lambda>s. Some True), supports = (\<lambda>c. True),
      matchMedia = (\<lambda>c. True), resolveURL = (\<lambda>u b. None), parse = (\<lambda>t. None),
      sheets = [\<lparr>href = Some sample_address, cssRules = None\<rparr>],
      styleSheets = [0],
      network = net_404\<rparr>"

text \<open>
  The same source behind a relay that answers, in time, with the empty text of an
  empty stylesheet.
\<close>

definition empty_success :: reply where
  "empty_success = \<lparr>reply_ok = True, reply_text = Some [], reply_error = None\<rparr>"

definition empty_channel :: "jsstr \<Rightarrow> relay" where
  "empty_channel u = Responds 20 (Obj empty_success)"

definition net_empty :: network where
  "net_empty = \<lparr>sendMessage = Some empty_channel, fetch = (\<lambda>u. Rejected NotAnError)\<rparr>"

definition relayed_page :: page where
  "relayed_page = blocked_page\<lparr>network := net_empty\<rparr>"

text \<open>
  A style text that the pattern of \<open>rewriteCssUrls\<close> matches, and what
  \<open>new URL(url, base).href\<close> gives for the two references that arise from it with the
  base \<open>http://h/\<close>: a leading backslash is read as a slash, backslashes in the path
  become slashes, those in the query stay.
\<close>

definition sample_base :: jsstr where
  "sample_base = js ''http://h/''"

definition nested_reference :: jsstr where
  "nested_reference = js ''url'' @ [bs, bs] @ js ''?url'' @ [bs, bs] @ js ''b'' @ [bs, bs, bs, bs]"

definition sample_resolve :: "jsstr \<Rightarrow> jsstr \<Rightarrow> jsstr option" where
  "sample_resolve url base =
     (if base = js ''http://h/'' \<and> url = [bs] @ js ''?url'' @ [bs, bs] @ js ''b'' @ [bs, bs, bs, bs]
      then Some (js ''http://h/?url'' @ [bs, bs] @ js ''b'' @ [bs, bs, bs, bs])
      else if base = js ''http://h/'' \<and> url = [bs] @ js ''b'' @ [bs, bs, bs, bs]
      then Some (js ''http://h/b////'')
      else None)"

section \<open>Properties of the fetch relay\<close>

lemma relay_promise_settles: "\<exists>t v a. relay_promise r = (Settled t v, a)"
  by (cases r) (auto simp: timeout_ms_def)




lemma fetchStylesheetText_total:
  "(fetched_text (fetchStylesheetText opts net address) = None)
     \<noteq> (fetched_error (fetchStylesheetText opts net address) = None)"
proof (cases "if useHostFetch opts then sendMessage net else None")
  case None
  then show ?thesis
    by (auto simp: fetchStylesheetText_def direct_fetch_def
             split: fetch_outcome.splits sum.splits)
next
  case (Some send)
  obtain t v a where "relay_promise (send address) = (Settled t v, a)"
    using relay_promise_settles by blast
  with Some show ?thesis
    by (cases "reply_text v") (auto simp: fetchStylesheetText_def)
qed

text \<open>
  C8. \<open>fetchStylesheetText\<close> has a result for every address, whatever the channel and
  the retrieval do, a throw included: stylesheet text or a failure reason, never both
  and never neither. On the relay path, when the privileged side never responds, or
  responds only after the timer's 3000 ms, the promise is settled by the timer, at
  3000 ms, and the result is the timeout failure: the late response does not change
  it.
\<close>

theorem relay_resolves_and_times_out:
  "((fetched_text (fetchStylesheetText opts net address) = None)
      \<noteq> (fetched_error (fetchStylesheetText opts net address) = None))
   \<and> (useHostFetch opts \<and> sendMessage net = Some send
        \<and> (send address = NoResponse \<or> (\<exists>at v. send address = Responds at v \<and> 3000 < at))
      \<longrightarrow> fst (relay_promise (send address)) = Settled 3000 timeout_reply
          \<and> fetchStylesheetText opts net address =
                \<lparr>fetched_text = None,
                 fetched_error = Some (js ''Background fetch timeout'')\<rparr>)"
proof (intro conjI impI)
  show "(fetched_text (fetchStylesheetText opts net address) = None)
          \<noteq> (fetched_error (fetchStylesheetText opts net address) = None)"
    by (rule fetchStylesheetText_total)
next
  assume a: "useHostFetch opts \<and> sendMessage net = Some send
        \<and> (send address = NoResponse \<or> (\<exists>at v. send address = Responds at v \<and> 3000 < at))"
  then show late: "fst (relay_promise (send address)) = Settled 3000 timeout_reply"
    by (auto simp: timeout_ms_def timeout_reply_def)
  from a show "fetchStylesheetText opts net address =
      \<lparr>fetched_text = None, fetched_error = Some (js ''Background fetch timeout'')\<rparr>"
    by (simp add: fetchStylesheetText_def late timeout_reply_def js_def)
qed

theorem relay_resolves_and_times_out_witness:
  "useHostFetch relay_options \<and> sendMessage net_late = Some late_channel
   \<and> late_channel sample_address = Responds 4500 (Obj sample_success) \<and> (3000::nat) < 4500
   \<and> fst (relay_promise (late_channel sample_address)) = Settled 3000 timeout_reply
   \<and> fetchStylesheetText relay_options net_late sample_address =
         \<lparr>fetched_text = None, fetched_error = Some (js ''Background fetch timeout'')\<rparr>"
proof -
  have a: "useHostFetch relay_options"
    by (simp add: relay_options_def)
  have b: "sendMessage net_late = Some late_channel"
    by (simp add: net_late_def)
  have c: "late_channel sample_address = Responds 4500 (Obj sample_success)"
    by (simp add: late_channel_def)
  have d: "(3000::nat) < 4500"
    by simp
  show ?thesis
    using a b c d
      relay_resolves_and_times_out [of relay_options net_late sample_address late_channel]
    by blast
qed

section \<open>Properties of the snapshot assembler\<close>









lemma style_ne [simp]:
  "js ''style'' \<noteq> js ''base''" "js ''style'' \<noteq> js ''plasmo-csui''"
  "js ''style'' \<noteq> js ''css-to-tailwind''" "js ''style'' \<noteq> js ''browser-mcp-container''"
  "js ''style'' \<noteq> js ''script''" "js ''style'' \<noteq> js ''link''"
  "js ''head'' \<noteq> js ''base''" "js ''head'' \<noteq> js ''plasmo-csui''"
  "js ''head'' \<noteq> js ''css-to-tailwind''" "js ''head'' \<noteq> js ''browser-mcp-container''"
  "js ''head'' \<noteq> js ''script''" "js ''head'' \<noteq> js ''link''"
  "js ''data-pc-freeze'' \<noteq> js ''data-extension-id''"
  "js ''data-extension-id'' \<noteq> js ''data-pc-freeze''"
  by (simp_all add: js_def cu_def)






lemma tags [simp]:
  "js ''html'' \<notin> set void_elements" "js ''head'' \<notin> set void_elements"
  "js ''style'' \<notin> set void_elements" "js ''style'' \<in> set raw_text_elements"
  by (simp_all add: void_elements_def raw_text_elements_def js_def cu_def)










section \<open>Properties of the selector list splitter\<close>






lemma rtrim_snoc:
  "rev (dropWhile P (rev (xs @ [x]))) = (if P x then rev (dropWhile P (rev xs)) else xs @ [x])"
  by simp

lemma trims_commute:
  "dropWhile P (rev (dropWhile P (rev xs))) = rev (dropWhile P (rev (dropWhile P xs)))"
proof (induction xs rule: rev_induct)
  case Nil
  then show ?case by simp
next
  case (snoc x xs)
  show ?case
  proof (cases "P x")
    case True
    then show ?thesis
      using snoc by (auto simp: dropWhile_append dropWhile_eq_Nil_conv dest: set_dropWhileD)
  next
    case False
    then show ?thesis
      by (auto simp: dropWhile_append)
  qed
qed

lemma trim_trim: "trim (trim s) = trim s"
  by (simp add: trim_def trims_commute)





section \<open>Properties of the collection engine\<close>

lemma collect_preserves:
  "stable h Q \<Longrightarrow> Q st \<Longrightarrow> Q (snd (collectRules opts h rules st))"
  "stable h Q \<Longrightarrow> Q st \<Longrightarrow> Q (collectFromStylesheet opts h i st)"
proof (induct opts h rules st and opts h i st rule: collectRules_collectFromStylesheet.induct)
  case (1 opts h st)
  then show ?case by simp
next
  case (2 opts h selectorText cssText rules st)
  then show ?case by (simp add: case_prod_beta)
next
  case (3 opts h conditionText children rules st)
  obtain nested st1 where eq: "collectRules opts h children st = (nested, st1)"
    by (cases "collectRules opts h children st")
  have "Q st1" using 3(1)[OF 3(3,4)] eq by simp
  then have "Q (snd (collectRules opts h rules st1))"
    using 3(2)[OF refl eq[symmetric] 3(3)] by simp
  then show ?case using eq by (simp add: case_prod_beta)
next
  case (4 opts h conditionText children rules st)
  show ?case
  proof (cases "supports h conditionText")
    case False
    then show ?thesis using 4(1)[OF _ 4(4,5)] by simp
  next
    case True
    obtain nested st1 where eq: "collectRules opts h children st = (nested, st1)"
      by (cases "collectRules opts h children st")
    have "Q st1" using 4(2)[OF _ 4(4,5)] True eq by simp
    then have "Q (snd (collectRules opts h rules st1))"
      using 4(3)[OF _ refl eq[symmetric] 4(4)] True by simp
    then show ?thesis using eq True by (simp add: case_prod_beta)
  qed
next
  case (5 opts h cssText rules st)
  then show ?case by (simp add: stable_def)
next
  case (6 opts h cssText rules st)
  then show ?case by (simp add: stable_def)
next
  case (7 opts h styleSheet rules st)
  then show ?case
    by (cases styleSheet) auto
next
  case (8 opts h cssText children rules st)
  obtain nested st1 where eq: "collectRules opts h children st = (nested, st1)"
    by (cases "collectRules opts h children st")
  have "Q st1" using 8(1)[OF 8(3,4)] eq by simp
  then have "Q (snd (collectRules opts h rules st1))"
    using 8(2)[OF refl eq[symmetric] 8(3)] by simp
  then show ?case using eq by (simp add: case_prod_beta)
next
  case (9 opts h rules st)
  then show ?case by simp
next
  case (10 opts h i st)
  note stab = 10(3)
  have frame: "\<And>st u w. Q st \<Longrightarrow> Q (st\<lparr>usedRules := u\<rparr>) \<and> Q (st\<lparr>warnings := w\<rparr>)"
    using stab by (simp add: collectFromStylesheet.simps stable_def)
  let ?st0 = "st\<lparr>visitedSheets := insert i (visitedSheets st), examined := examined st @ [i]\<rparr>"
  show ?case
  proof (cases "i \<in> visitedSheets st \<or> \<not> i < length (sheets h)")
    case True
    then show ?thesis using 10(4) by (simp add: collectFromStylesheet.simps)
  next
    case False
    then have q0: "Q ?st0" using stab 10(4) by (simp add: collectFromStylesheet.simps stable_def marked_def)
    show ?thesis
    proof (cases "cssRules (sheets h ! i)")
      case (Some rules)
      have "Q (snd (collectRules opts h rules ?st0))"
        using 10(2)[OF False refl Some stab q0] by (simp add: collectFromStylesheet.simps)
      then show ?thesis
        using False Some frame by (simp add: collectFromStylesheet.simps case_prod_beta Let_def)
    next
      case None
      let ?address = "the (href (sheets h ! i))"
      let ?st1 = "?st0\<lparr>warnings := warnings ?st0 @
                               [js ''cssRules blocked for stylesheet: '' @ ?address]\<rparr>"
      let ?fb = "fetchStylesheetText opts (network h) ?address"
      let ?parsed = "parseRulesFromText h (inlineCssUrls (resolveURL h) (the (fetched_text ?fb))
                                 (Some ?address) False)"
      have q1: "Q ?st1" using frame[OF q0] by (simp add: collectFromStylesheet.simps)
      show ?thesis
      proof (cases "truthy (href (sheets h ! i)) \<and> truthy (fetched_text ?fb)")
        case nofetch: False
        then show ?thesis
          using False None q0 q1 frame[OF q1] by (auto simp: collectFromStylesheet.simps Let_def)
      next
        case True
        show ?thesis
        proof (cases ?parsed)
          case noparse: None
          then show ?thesis
            using False None True frame[OF q1] by (simp add: collectFromStylesheet.simps Let_def)
        next
          case (Some rules)
          have "Q (snd (collectRules opts h rules ?st1))"
            using 10(1)[OF False refl None _ refl refl refl _ refl refl Some stab] True q1
            by (simp add: collectFromStylesheet.simps)
          then show ?thesis
            using False None True Some frame by (simp add: collectFromStylesheet.simps Let_def case_prod_beta)
        qed
      qed
    qed
  qed
qed


lemma selectorMatches_matchMedia [simp]:
  "selectorMatches (h\<lparr>matchMedia := m\<rparr>) = selectorMatches h"
  by (rule ext) (simp add: selectorMatches_def Let_def split: option.splits)

lemma collect_ignores_matchMedia:
  "collectRules opts (h\<lparr>matchMedia := m\<rparr>) rules st = collectRules opts h rules st"
  "collectFromStylesheet opts (h\<lparr>matchMedia := m\<rparr>) i st = collectFromStylesheet opts h i st"
proof (induct opts h rules st and opts h i st rule: collectRules_collectFromStylesheet.induct)
  case (1 opts h st)
  then show ?case by simp
next
  case (2 opts h selectorText cssText rules st)
  then show ?case by simp
next
  case (3 opts h conditionText children rules st)
  obtain nested st1 where eq: "collectRules opts h children st = (nested, st1)"
    by (cases "collectRules opts h children st")
  show ?case using 3(1) 3(2)[OF refl eq[symmetric]] eq by simp
next
  case (4 opts h conditionText children rules st)
  obtain nested st1 where eq: "collectRules opts h children st = (nested, st1)"
    by (cases "collectRules opts h children st")
  show ?case
  proof (cases "supports h conditionText")
    case True
    then show ?thesis using 4(2) 4(3)[OF _ refl eq[symmetric]] eq by simp
  next
    case False
    then show ?thesis using 4(1) by simp
  qed
next
  case (5 opts h cssText rules st)
  then show ?case by simp
next
  case (6 opts h cssText rules st)
  then show ?case by simp
next
  case (7 opts h styleSheet rules st)
  then show ?case by (cases styleSheet) auto
next
  case (8 opts h cssText children rules st)
  obtain nested st1 where eq: "collectRules opts h children st = (nested, st1)"
    by (cases "collectRules opts h children st")
  show ?case using 8(1) 8(2)[OF refl eq[symmetric]] eq by simp
next
  case (9 opts h rules st)
  then show ?case by simp
next
  case (10 opts h i st)
  let ?h = "h\<lparr>matchMedia := m\<rparr>"
  show ?case
  proof (cases "i \<in> visitedSheets st \<or> \<not> i < length (sheets h)")
    case True
    then show ?thesis by (auto simp: collectFromStylesheet.simps)
  next
    case False
    show ?thesis
    proof (cases "cssRules (sheets h ! i)")
      case (Some rules)
      show ?thesis
        using 10(2)[OF False refl Some] False Some by (simp add: collectFromStylesheet.simps Let_def)
    next
      case None
      let ?address = "the (href (sheets h ! i))"
      let ?fb = "fetchStylesheetText opts (network h) ?address"
      let ?parsed = "parseRulesFromText h (inlineCssUrls (resolveURL h) (the (fetched_text ?fb))
                                 (Some ?address) False)"
      have p: "parseRulesFromText ?h = parseRulesFromText h"
        by (rule ext) (simp add: parseRulesFromText_def)
      show ?thesis
      proof (cases "truthy (href (sheets h ! i)) \<and> truthy (fetched_text ?fb)")
        case nofetch: False
        then show ?thesis
          using False None by (auto simp: collectFromStylesheet.simps Let_def)
      next
        case True
        show ?thesis
        proof (cases ?parsed)
          case noparse: None
          then show ?thesis
            using False None True by (simp add: collectFromStylesheet.simps Let_def p)
        next
          case (Some rules)
          show ?thesis
            using 10(1)[OF False refl None _ refl refl refl _ refl refl Some] True
              False None Some
            by (simp add: collectFromStylesheet.simps Let_def p)
        qed
      qed
    qed
  qed
qed

lemma visited_invariant:
  "stable h (\<lambda>st. distinct (examined st) \<and> set (examined st) = visitedSheets st
                  \<and> visitedSheets st \<subseteq> {..<length (sheets h)})"
  by (auto simp: stable_def marked_def)

lemma traversal_preserves:
  "stable h Q \<Longrightarrow> Q st \<Longrightarrow>
     Q (foldl (\<lambda>st sheet. collectFromStylesheet opts h sheet st) st sources)"
  by (induction sources arbitrary: st) (simp_all add: collect_preserves(2))

text \<open>
  C4. The traversal is a total function of the page: its recursion is well-founded
  on the number of style sources of the arena not yet visited, whatever the import
  graph, cycles and self-imports included. A style source already in the visited set
  is skipped, with no effect; one not yet in it is in it when its rules are
  examined. At the end of \<open>collectUsedCss\<close> no style source occurs twice among those
  whose rules were examined, they are exactly the visited ones, and so at most as
  many as the arena holds.
\<close>

theorem each_source_examined_once:
  "(i \<in> visitedSheets st \<longrightarrow> collectFromStylesheet opts h i st = st)
   \<and> (j \<notin> visitedSheets st' \<and> j < length (sheets h) \<and> cssRules (sheets h ! j) = Some rules
        \<longrightarrow> j \<in> visitedSheets (marked j st')
            \<and> collectFromStylesheet opts h j st' =
                (let (nested, st1) = collectRules opts h rules (marked j st')
                 in st1\<lparr>usedRules := usedRules st1 @ nested\<rparr>))
   \<and> distinct (examined (snd (collectUsedCss opts h ws)))
   \<and> set (examined (snd (collectUsedCss opts h ws))) = visitedSheets (snd (collectUsedCss opts h ws))
   \<and> length (examined (snd (collectUsedCss opts h ws))) \<le> length (sheets h)"
proof -
  let ?Q = "\<lambda>st. distinct (examined st) \<and> set (examined st) = visitedSheets st
                  \<and> visitedSheets st \<subseteq> {..<length (sheets h)}"
  have q: "?Q (snd (collectUsedCss opts h ws))"
    unfolding collectUsedCss_def Let_def snd_conv
    by (rule traversal_preserves[OF visited_invariant]) simp
  then have "card (set (examined (snd (collectUsedCss opts h ws)))) \<le> card {..<length (sheets h)}"
    by (intro card_mono) auto
  moreover have "card (set (examined (snd (collectUsedCss opts h ws))))
                   = length (examined (snd (collectUsedCss opts h ws)))"
    using q by (intro distinct_card) simp
  ultimately have "length (examined (snd (collectUsedCss opts h ws))) \<le> length (sheets h)"
    by simp
  with q show ?thesis by (simp add: collectFromStylesheet.simps marked_def)
qed

theorem each_source_examined_once_witness:
  "0 \<in> visitedSheets (marked 0 empty_collector)
   \<and> collectFromStylesheet direct_options cyclic_page 0 (marked 0 empty_collector)
       = marked 0 empty_collector
   \<and> 0 \<notin> visitedSheets empty_collector \<and> 0 < length (sheets cyclic_page)
   \<and> cssRules (sheets cyclic_page ! 0) = Some self_importing_rules
   \<and> collectFromStylesheet direct_options cyclic_page 0 empty_collector =
        (let (nested, st1) =
               collectRules direct_options cyclic_page self_importing_rules
                 (marked 0 empty_collector)
         in st1\<lparr>usedRules := usedRules st1 @ nested\<rparr>)
   \<and> examined (snd (collectUsedCss direct_options cyclic_page [])) = [0, 1]
   \<and> distinct (examined (snd (collectUsedCss direct_options cyclic_page [])))
   \<and> usedRules (snd (collectUsedCss direct_options cyclic_page []))
       = [js ''p { color: red; }'', js ''p { margin: 0; }'']"
proof -
  have a: "0 \<in> visitedSheets (marked 0 empty_collector)"
    by (simp add: marked_def)
  have e: "examined (snd (collectUsedCss direct_options cyclic_page [])) = [0, 1]"
    by code_simp
  have u: "usedRules (snd (collectUsedCss direct_options cyclic_page []))
       = [js ''p { color: red; }'', js ''p { margin: 0; }'']"
    by code_simp
  have b: "0 \<notin> visitedSheets empty_collector \<and> 0 < length (sheets cyclic_page)
             \<and> cssRules (sheets cyclic_page ! 0) = Some self_importing_rules"
    by (simp add: empty_collector_def cyclic_page_def)
  note t = each_source_examined_once
    [of 0 "marked 0 empty_collector" direct_options cyclic_page 0 empty_collector
        self_importing_rules "[]"]
  note r = t [THEN conjunct2, THEN conjunct1, THEN mp, OF b, THEN conjunct2]
  have s: "collectFromStylesheet direct_options cyclic_page 0 (marked 0 empty_collector)
       = marked 0 empty_collector"
    by (rule t [THEN conjunct1, THEN mp, OF a])
  have d: "distinct (examined (snd (collectUsedCss direct_options cyclic_page [])))"
    by (rule t [THEN conjunct2, THEN conjunct2, THEN conjunct1])
  show ?thesis
    by (intro conjI a s e d u r b [THEN conjunct1] b [THEN conjunct2, THEN conjunct1]
          b [THEN conjunct2, THEN conjunct2])
qed



text \<open>
  C9. When the relay answers in time with \<open>{ ok: true, text: "" }\<close>, the well-formed
  success of an empty stylesheet, \<open>fetchStylesheetText\<close> returns the failure
  \<open>Background fetch failed\<close> and no text; for a style source whose rules cannot be read
  the collection then appends the fetch-failure warning.
\<close>

theorem empty_relay_text_is_failure:
  assumes "useHostFetch opts" and "sendMessage net = Some send"
    and "send address = Responds at (Obj \<lparr>reply_ok = True, reply_text = Some [], reply_error = None\<rparr>)"
    and "at < 3000"
  shows "fetchStylesheetText opts net address =
           \<lparr>fetched_text = None, fetched_error = Some (js ''Background fetch failed'')\<rparr>
         \<and> (network h = net \<and> i < length (sheets h) \<and> i \<notin> visitedSheets st
              \<and> cssRules (sheets h ! i) = None \<and> href (sheets h ! i) = Some address
              \<and> address \<noteq> []
            \<longrightarrow> warnings (collectFromStylesheet opts h i st) = warnings st @
                  [js ''cssRules blocked for stylesheet: '' @ address,
                   js ''Failed to fetch stylesheet: '' @ address
                     @ js '' (Background fetch failed)''])"
proof -
  have f: "fetchStylesheetText opts net address =
           \<lparr>fetched_text = None, fetched_error = Some (js ''Background fetch failed'')\<rparr>"
    using assms by (simp add: fetchStylesheetText_def timeout_ms_def)
  have j: "js '' ('' @ js ''Background fetch failed'' @ js '')'' = js '' (Background fetch failed)''"
    by (simp add: js_def)
  show ?thesis
    using f by (auto simp: collectFromStylesheet.simps Let_def j)
qed

theorem empty_relay_text_is_failure_witness:
  "useHostFetch relay_options \<and> sendMessage net_empty = Some empty_channel
   \<and> empty_channel sample_address
       = Responds 20 (Obj \<lparr>reply_ok = True, reply_text = Some [], reply_error = None\<rparr>)
   \<and> (20::nat) < 3000
   \<and> fetchStylesheetText relay_options net_empty sample_address =
           \<lparr>fetched_text = None, fetched_error = Some (js ''Background fetch failed'')\<rparr>
   \<and> warnings (collectFromStylesheet relay_options relayed_page 0 empty_collector) =
        [js ''cssRules blocked for stylesheet: '' @ sample_address,
         js ''Failed to fetch stylesheet: '' @ sample_address @ js '' (Background fetch failed)'']"
proof -
  have a: "useHostFetch relay_options"
    by (simp add: relay_options_def)
  have b: "sendMessage net_empty = Some empty_channel"
    by (simp add: net_empty_def)
  have c: "empty_channel sample_address
       = Responds 20 (Obj \<lparr>reply_ok = True, reply_text = Some [], reply_error = None\<rparr>)"
    by (simp add: empty_channel_def empty_success_def)
  have d: "(20::nat) < 3000"
    by simp
  have e: "network relayed_page = net_empty \<and> 0 < length (sheets relayed_page)
              \<and> 0 \<notin> visitedSheets empty_collector
              \<and> cssRules (sheets relayed_page ! 0) = None
              \<and> href (sheets relayed_page ! 0) = Some sample_address
              \<and> sample_address \<noteq> []"
    by (simp add: relayed_page_def blocked_page_def empty_collector_def sample_address_def js_def)
  note t = empty_relay_text_is_failure [OF a b c d, of relayed_page 0 empty_collector]
  show ?thesis
    using t [THEN conjunct1] t [THEN conjunct2, THEN mp, OF e]
    by (intro conjI a b c d) (simp_all add: empty_collector_def)
qed

text \<open>
  C1, as amended. A media group contributes its children's collected text, wrapped
  in its own condition, exactly when at least one child was collected, and nothing
  otherwise. The host's media query primitive is not consulted: the collection is
  the same whatever it answers.
\<close>

theorem media_group_kept_iff_child_survives:
  "fst (collectRules opts h (MediaRule conditionText children # rules) st) =
     (if fst (collectRules opts h children st) \<noteq> []
      then [js ''@media '' @ conditionText @ js ''{''
              @ concat (fst (collectRules opts h children st)) @ js ''}'']
      else [])
     @ fst (collectRules opts h rules (snd (collectRules opts h children st)))
   \<and> collectRules opts (h\<lparr>matchMedia := m\<rparr>) rules' st = collectRules opts h rules' st"
  by (simp add: case_prod_beta collect_ignores_matchMedia(1))

text \<open>
  C1 as stated fails: on a page on which no media query holds, a media group with a
  matching child is collected, wrapped in its condition.
\<close>

theorem unsatisfied_media_group_is_kept:
  "\<not> matchMedia screen_page (js ''print'')
   \<and> fst (collectRules direct_options screen_page [print_rule] empty_collector)
       = [js ''@media print{p, q { color: red; }}'']"
  by (simp add: screen_page_def print_rule_def) code_simp

section \<open>Properties of the selector normalizer\<close>

lemma ms_length: "rest \<in> set (ms ic r s) \<Longrightarrow> length rest \<le> length s"
proof (induction ic r s arbitrary: rest rule: ms.induct)
  case (5 ic a b s)
  then obtain mid where "mid \<in> set (ms ic a s)" "rest \<in> set (ms ic b mid)" by auto
  with 5 show ?case by (meson order_trans)
next
  case (8 ic a s)
  from 8(3) consider "rest = s"
    | mid where "mid \<in> set (ms ic a s)" "length mid < length s" "rest \<in> set (ms ic (Star a) mid)"
    by (subst (asm) ms.simps) (auto split: if_splits)
  then show ?case
  proof cases
    case 1
    then show ?thesis by simp
  next
    case 2
    with 8(2)[of mid rest] show ?thesis by simp
  qed
qed (auto split: list.splits if_splits)

lemma canon_colon: "canon ic x = canon ic (cu CHR '':'') \<longleftrightarrow> x = cu CHR '':''"
  by (auto simp: canon_def cu_def diff_eq_eq)

lemma consuming_Lit: "consuming ic (Seq (Lit c) r)"
  unfolding consuming_def
proof (intro allI impI)
  fix s rest
  assume "rest \<in> set (ms ic (Seq (Lit c) r) s)"
  then obtain x xs where "s = x # xs" "rest \<in> set (ms ic r xs)"
    by (cases s) (auto split: if_splits)
  then show "length rest < length s"
    using ms_length[of rest ic r xs] by simp
qed

lemma consuming_Alt: "consuming ic a \<Longrightarrow> consuming ic b \<Longrightarrow> consuming ic (Alt a b)"
  by (auto simp: consuming_def)

lemma colon_first_Lit: "colon_first ic (Seq (Lit (cu CHR '':'')) r)"
  unfolding colon_first_def
  by (auto simp: canon_colon split: list.splits if_splits)

lemma colon_first_Alt: "colon_first ic a \<Longrightarrow> colon_first ic b \<Longrightarrow> colon_first ic (Alt a b)"
  by (auto simp: colon_first_def)

lemma patterns:
  "consuming True rx_before_after" "consuming False rx_pseudo_element"
  "consuming True rx_pseudo_class"
  "colon_first True rx_before_after" "colon_first False rx_pseudo_element"
  "colon_first True rx_pseudo_class"
  by (simp_all add: rx_before_after_def rx_pseudo_element_def rx_pseudo_class_def
        consuming_Lit consuming_Alt colon_first_Lit colon_first_Alt)

lemma replace_identity: "\<not> occurs ic r s \<Longrightarrow> replace_with ic r f s = s"
  by (induction s) auto

lemma strip_length: "length (replace_with ic r (\<lambda>m. []) s) \<le> length s"
  by (induction ic r "\<lambda>m::jsstr. []::jsstr" s rule: replace_with.induct)
     (auto split: list.splits)

lemma strip_shorter:
  "consuming ic r \<Longrightarrow> occurs ic r s \<Longrightarrow> length (replace_with ic r (\<lambda>m. []) s) < length s"
proof (induction s)
  case Nil
  then obtain x where "x \<in> set (ms ic r [])"
    by (cases "ms ic r []") auto
  with Nil(1) have "length x < length ([]::jsstr)"
    unfolding consuming_def by blast
  then show ?case by simp
next
  case (Cons c cs)
  show ?case
  proof (cases "ms ic r (c # cs)")
    case Nil
    with Cons show ?thesis by simp
  next
    case (Cons rest others)
    then have "length rest < length (c # cs)"
      using \<open>consuming ic r\<close> unfolding consuming_def by (metis list.set_intros(1))
    moreover have "length (replace_with ic r (\<lambda>m. []) rest) \<le> length rest"
      by (rule strip_length)
    ultimately show ?thesis using Cons by simp
  qed
qed

lemma no_colon_no_match:
  "colon_first ic r \<Longrightarrow> cu CHR '':'' \<notin> set s \<Longrightarrow> \<not> occurs ic r s"
  by (induction s) (auto simp: colon_first_def)

lemma trim_length: "length (trim s) \<le> length s"
  unfolding trim_def
  by (metis length_dropWhile_le length_rev order_trans)


lemma normalize_fixed:
  "normalizeSelector t = t \<longleftrightarrow> pseudo_free t \<and> trim t = t"
proof
  assume "pseudo_free t \<and> trim t = t"
  then show "normalizeSelector t = t"
    by (simp add: normalizeSelector_def pseudo_free_def replace_identity)
next
  assume fixed: "normalizeSelector t = t"
  let ?a = "replace_with True rx_before_after (\<lambda>m. []) t"
  let ?b = "replace_with False rx_pseudo_element (\<lambda>m. []) ?a"
  let ?c = "replace_with True rx_pseudo_class (\<lambda>m. []) ?b"
  have n: "normalizeSelector t = trim ?c"
    by (simp add: normalizeSelector_def)
  have le: "length t \<le> length ?c" "length ?c \<le> length ?b" "length ?b \<le> length ?a"
      "length ?a \<le> length t"
    using trim_length[of ?c] fixed n by (simp_all add: strip_length)
  have 1: "\<not> occurs True rx_before_after t"
    using strip_shorter[OF patterns(1), of t] le by force
  then have a: "?a = t" by (rule replace_identity)
  have 2: "\<not> occurs False rx_pseudo_element t"
    using strip_shorter[OF patterns(2), of t] le a by force
  then have b: "?b = t" using a by (simp add: replace_identity)
  have 3: "\<not> occurs True rx_pseudo_class t"
    using strip_shorter[OF patterns(3), of t] le a b by force
  then have c: "?c = t" using b by (simp add: replace_identity)
  show "pseudo_free t \<and> trim t = t"
    using 1 2 3 fixed n c by (simp add: pseudo_free_def)
qed

lemma trim_normalize: "trim (normalizeSelector s) = normalizeSelector s"
  by (simp add: normalizeSelector_def trim_trim)

lemma no_colon_pseudo_free: "cu CHR '':'' \<notin> set t \<Longrightarrow> pseudo_free t"
  by (simp add: pseudo_free_def no_colon_no_match patterns)

text \<open>
  C2, as amended. \<open>normalizeSelector\<close> is a total function of the selector alone and
  its result is trimmed. Normalizing the result again gives the same result exactly
  when the result holds no further match of the stripped patterns; in particular
  whenever the result holds no colon.
\<close>

theorem normalizeSelector_twice:
  "trim (normalizeSelector s) = normalizeSelector s
   \<and> (normalizeSelector (normalizeSelector s) = normalizeSelector s
        \<longleftrightarrow> pseudo_free (normalizeSelector s))
   \<and> (cu CHR '':'' \<notin> set (normalizeSelector s)
        \<longrightarrow> normalizeSelector (normalizeSelector s) = normalizeSelector s)"
  using no_colon_pseudo_free[of "normalizeSelector s"]
  by (simp add: normalize_fixed trim_normalize)


theorem normalizeSelector_twice_witness:
  "cu CHR '':'' \<notin> set (normalizeSelector (js '' a:hover::before ''))
   \<and> normalizeSelector (js '' a:hover::before '') = js ''a''
   \<and> normalizeSelector (normalizeSelector (js '' a:hover::before ''))
       = normalizeSelector (js '' a:hover::before '')"
proof -
  have v: "normalizeSelector (js '' a:hover::before '') = js ''a''"
    by code_simp
  have a: "cu CHR '':'' \<notin> set (normalizeSelector (js '' a:hover::before ''))"
    unfolding v by (simp add: js_def cu_def)
  note t = normalizeSelector_twice [of "js '' a:hover::before ''"]
  show ?thesis
    by (intro conjI a v t [THEN conjunct2, THEN conjunct2, THEN mp, OF a])
qed

text \<open>
  C2 as stated fails: stripping \<open>:hover\<close> out of \<open>:ho:hoverver\<close> leaves \<open>:hover\<close>, which
  a second normalization strips to the empty string.
\<close>

theorem normalizeSelector_not_idempotent:
  "normalizeSelector (js '':ho:hoverver'') = js '':hover''
   \<and> normalizeSelector (normalizeSelector (js '':ho:hoverver'')) = []
   \<and> normalizeSelector (normalizeSelector (js '':ho:hoverver''))
       \<noteq> normalizeSelector (js '':ho:hoverver'')"
proof -
  have a: "normalizeSelector (js '':ho:hoverver'') = js '':hover''"
    by code_simp
  have b: "normalizeSelector (js '':hover'') = []"
    by code_simp
  show ?thesis
    unfolding a b by (simp add: js_def)
qed

section \<open>The URL rewriter on a nested reference\<close>

text \<open>
  C5. Idempotence fails on the code as written. The pattern of \<open>rewriteCssUrls\<close>
  matches \<open>url\<close> followed by backslashes, never \<open>url(\<close>: an ordinary reference is left
  as it is even when it resolves, and the replacement \<open>url("...")\<close> is not matched
  again. A reference the pattern does match, whose resolved address holds such a
  reference in its query, is rewritten on the first pass, and the address inside it
  on the second: the two passes differ.
\<close>

theorem rewriteCssUrls_second_pass_differs:
  "rewriteCssUrls (\<lambda>u b. Some (b @ u)) (js ''a { background: url(x.png) }'') (Some sample_base)
     = js ''a { background: url(x.png) }''
   \<and> rewriteCssUrls sample_resolve nested_reference (Some sample_base)
     = js ''url('' @ [dq] @ js ''http://h/?url'' @ [bs, bs] @ js ''b'' @ [bs, bs, bs, bs]
         @ [dq] @ js '')''
   \<and> rewriteCssUrls sample_resolve
       (rewriteCssUrls sample_resolve nested_reference (Some sample_base)) (Some sample_base)
     = js ''url('' @ [dq] @ js ''http://h/?url('' @ [dq] @ js ''http://h/b////'' @ [dq]
         @ js '')'' @ [dq] @ js '')''
   \<and> rewriteCssUrls sample_resolve
       (rewriteCssUrls sample_resolve nested_reference (Some sample_base)) (Some sample_base)
     \<noteq> rewriteCssUrls sample_resolve nested_reference (Some sample_base)"
proof -
  have a: "rewriteCssUrls (\<lambda>u b. Some (b @ u)) (js ''a { background: url(x.png) }'')
             (Some sample_base)
     = js ''a { background: url(x.png) }''"
    by code_simp
  have b: "rewriteCssUrls sample_resolve nested_reference (Some sample_base)
     = js ''url('' @ [dq] @ js ''http://h/?url'' @ [bs, bs] @ js ''b'' @ [bs, bs, bs, bs]
         @ [dq] @ js '')''"
    by code_simp
  have c: "rewriteCssUrls sample_resolve
       (js ''url('' @ [dq] @ js ''http://h/?url'' @ [bs, bs] @ js ''b'' @ [bs, bs, bs, bs]
         @ [dq] @ js '')'') (Some sample_base)
     = js ''url('' @ [dq] @ js ''http://h/?url('' @ [dq] @ js ''http://h/b////'' @ [dq]
         @ js '')'' @ [dq] @ js '')''"
    by code_simp
  have d: "js ''url('' @ [dq] @ js ''http://h/?url('' @ [dq] @ js ''http://h/b////'' @ [dq]
         @ js '')'' @ [dq] @ js '')''
     \<noteq> js ''url('' @ [dq] @ js ''http://h/?url'' @ [bs, bs] @ js ''b'' @ [bs, bs, bs, bs]
         @ [dq] @ js '')''"
    by (simp add: js_def cu_def dq_def bs_def)
  show ?thesis
    unfolding b c using a d by simp
qed

end
